theory Spec2Isabelle
  imports
    Main
    "HOL-Library.FSet"
    "HOL-Library.Finite_Map"
    "HOL-Library.Multiset"
    "HOL-Library.Char_ord"
    "HOL-Library.List_Lexorder"
begin

section \<open>The follower network of \<open>app/twitch_rec/follower_network.py\<close>\<close>

text \<open>
  The module holds two classes. \<open>FollowerNetwork\<close> keeps a \<open>collections.Counter\<close> of
  followed ids and derives the mutual followings from it; \<open>FollowNetPipe\<close> feeds the
  replies of the Twitch client into that counter and hands out the ids that became
  mutual followings, in batches of \<open>BATCH_SZ\<close>.

  Python objects are mutable and the properties of \<open>FollowerNetwork\<close> write to the
  object they read, so every method is a function from the state before the call to
  the returned value together with the state after it.
\<close>

subsection \<open>Replies of the Twitch client\<close>

text \<open>
  \<open>tc.get_full_n_followings\<close> answers with a dict that has an integer under \<open>'total'\<close>
  and, under \<open>'data'\<close>, a list of dicts that each carry a user id under \<open>'to_id'\<close>.
  An answer that Python treats as false (\<open>None\<close>, the empty dict) is \<open>None\<close> here.
\<close>

record following =
  to_id :: string

record following_reply =
  r_total :: int
  r_data :: "following list"

subsection \<open>\<open>collections.Counter\<close>\<close>

text \<open>
  A \<open>Counter\<close> is a dict from keys to integers. Looking up a key that is absent reads as
  \<open>0\<close> (\<open>count_of\<close>); \<open>update\<close> with a list adds one to the entry of each element, once for
  each time it occurs; \<open>pop(k, None)\<close> removes the entry of \<open>k\<close> when there is one.
\<close>

type_synonym Counter = "(string, int) fmap"

definition count_of :: "Counter \<Rightarrow> string \<Rightarrow> int" where
  "count_of c elem = (case fmlookup c elem of None \<Rightarrow> 0 | Some n \<Rightarrow> n)"

definition counter_incr :: "string \<Rightarrow> Counter \<Rightarrow> Counter" where
  "counter_incr elem c = fmupd elem (count_of c elem + 1) c"

definition counter_update :: "string list \<Rightarrow> Counter \<Rightarrow> Counter" where
  "counter_update elems c = fold counter_incr elems c"

definition counter_pop :: "string \<Rightarrow> Counter \<Rightarrow> Counter" where
  "counter_pop k c = fmdrop k c"

subsection \<open>\<open>FollowerNetwork\<close>\<close>

text \<open>The field \<open>counter_store\<close> is the attribute \<open>_followings_counter\<close>.\<close>

record FollowerNetwork =
  streamer_id :: string
  min_mutual :: int
  counter_store :: Counter

definition FollowerNetwork_init :: "string \<Rightarrow> int \<Rightarrow> FollowerNetwork" where
  "FollowerNetwork_init sid mm =
     \<lparr>streamer_id = sid, min_mutual = mm, counter_store = fmempty\<rparr>"

text \<open>
  The property \<open>followings_counter\<close> pops the streamer's own id from the stored counter
  and returns that counter; the second component is the object after the call.
\<close>

definition followings_counter :: "FollowerNetwork \<Rightarrow> Counter \<times> FollowerNetwork" where
  "followings_counter self =
     (let c = counter_pop (streamer_id self) (counter_store self)
      in (c, self\<lparr>counter_store := c\<rparr>))"

text \<open>
  The property \<open>mutual_followings\<close> reads the counter through \<open>followings_counter\<close> and
  keeps the entries whose count is at least \<open>min_mutual\<close>.
\<close>

definition mutual_followings :: "FollowerNetwork \<Rightarrow> Counter \<times> FollowerNetwork" where
  "mutual_followings self =
     (case followings_counter self of (c, self') \<Rightarrow>
        (fmfilter (\<lambda>uid. case fmlookup c uid of
                            None \<Rightarrow> False
                          | Some cnt \<Rightarrow> min_mutual self' \<le> cnt) c,
         self'))"

subsection \<open>\<open>FollowNetPipe\<close>\<close>

text \<open>
  \<open>BATCH_SZ\<close>, \<open>num_collected\<close>, \<open>num_skipped\<close> and \<open>batch_history\<close> are attributes of the
  class. \<open>num_collected\<close> and \<open>num_skipped\<close> are integers: the first \<open>+= 1\<close> on an
  instance reads the class's \<open>0\<close> and stores the sum on the instance, so they are fields
  of the instance that start at \<open>0\<close>. \<open>batch_history\<close> is a set that no instance ever
  assigns; every instance reaches the one set of the class and updates it in place.
  It is therefore a field of the class state \<open>pipe_class\<close>, which every method takes
  and returns beside the instance.
\<close>

definition BATCH_SZ :: nat where
  "BATCH_SZ = 100"

record FollowNetPipe =
  folnet :: FollowerNetwork
  max_followings :: int
  num_collected :: int
  num_skipped :: int

record pipe_class =
  batch_history :: "string fset"

text \<open>The class state of a fresh interpreter, and \<open>__init__\<close>, which leaves it alone.\<close>

definition pipe_class_init :: pipe_class where
  "pipe_class_init = \<lparr>batch_history = {||}\<rparr>"

definition FollowNetPipe_init ::
  "FollowerNetwork \<Rightarrow> int \<Rightarrow> pipe_class \<Rightarrow> FollowNetPipe \<times> pipe_class" where
  "FollowNetPipe_init fn mf cls =
     (\<lparr>folnet = fn, max_followings = mf, num_collected = 0, num_skipped = 0\<rparr>, cls)"

text \<open>
  \<open>list(new_candidates)\<close> lists a Python set. The language promises every element once
  and no order; the order CPython takes depends on hashes that change from one
  interpreter to the next. The listing is a parameter \<open>it\<close> of the methods, and
  \<open>set_iter\<close> says of it what the language promises.
\<close>

type_synonym set_listing = "string fset \<Rightarrow> string list"

definition set_iter :: "set_listing \<Rightarrow> bool" where
  "set_iter it = (\<forall>S. fset_of_list (it S) = S \<and> distinct (it S))"

text \<open>
  \<open>range(0, n, step)\<close> for a positive \<open>step\<close> (Python raises \<open>ValueError\<close> for \<open>step = 0\<close>;
  the only step used is \<open>BATCH_SZ\<close>).
\<close>

definition range_step :: "nat \<Rightarrow> nat \<Rightarrow> nat list" where
  "range_step n step = map (\<lambda>j. j * step) [0..<(n + step - 1) div step]"

text \<open>
  \<open>batchify\<close> returns a list of ids when \<open>fetch_all\<close> is false and a list of lists of ids
  when it is true. Python's empty list \<open>[]\<close> is \<open>Flat []\<close> in the first case and
  \<open>Chunks []\<close> in the second.
\<close>

datatype batches = Flat "string list" | Chunks "string list list"

definition batchify :: "string list \<Rightarrow> bool \<Rightarrow> batches" where
  "batchify candidates fetch_all =
     (if fetch_all then
        Chunks (map (\<lambda>i. take BATCH_SZ (drop i candidates))
                    (range_step (length candidates) BATCH_SZ))
      else if BATCH_SZ < length candidates then Flat (take BATCH_SZ candidates)
      else Flat [])"

text \<open>
  The ids that \<open>new_candidate_batches\<close> adds to \<open>batch_history\<close>: the batches themselves,
  or their concatenation when \<open>remainder\<close> is set and the first batch is a list.
  (\<open>batchify\<close> returns lists of lists only when \<open>remainder\<close> is set, so the last branch is
  taken for \<open>Chunks []\<close> alone.)
\<close>

definition flat_candidates :: "bool \<Rightarrow> batches \<Rightarrow> string list" where
  "flat_candidates remainder bs =
     (case bs of
        Flat uids \<Rightarrow> uids
      | Chunks sublists \<Rightarrow>
          (if remainder \<and> sublists \<noteq> [] then concat sublists else []))"

text \<open>The set \<open>self.folnet.mutual_followings.keys() - self.batch_history\<close>.\<close>

definition new_candidates :: "FollowNetPipe \<Rightarrow> pipe_class \<Rightarrow> string fset" where
  "new_candidates self cls =
     fmdom (fst (mutual_followings (folnet self))) |-| batch_history cls"

definition new_candidate_batches ::
  "set_listing \<Rightarrow> bool \<Rightarrow> FollowNetPipe \<Rightarrow> pipe_class
     \<Rightarrow> batches \<times> FollowNetPipe \<times> pipe_class" where
  "new_candidate_batches it remainder self cls =
     (let bs = batchify (it (new_candidates self cls)) remainder;
          flat = flat_candidates remainder bs
      in (bs,
          self\<lparr>folnet := snd (mutual_followings (folnet self))\<rparr>,
          cls\<lparr>batch_history := batch_history cls |\<union>| fset_of_list flat\<rparr>))"

definition update_followings ::
  "set_listing \<Rightarrow> following_reply option \<Rightarrow> bool \<Rightarrow> FollowNetPipe \<Rightarrow> pipe_class
     \<Rightarrow> batches \<times> FollowNetPipe \<times> pipe_class" where
  "update_followings it reply all_batches self cls =
     (let self' =
        (case reply of
           None \<Rightarrow> self
         | Some r \<Rightarrow>
             if r_total r \<le> max_followings self then
               (case followings_counter (folnet self) of (c, fn) \<Rightarrow>
                  self\<lparr>folnet := fn\<lparr>counter_store := counter_update (map to_id (r_data r)) c\<rparr>,
                       num_collected := num_collected self + 1\<rparr>)
             else self\<lparr>num_skipped := num_skipped self + 1\<rparr>)
      in if all_batches then new_candidate_batches it True self' cls
         else new_candidate_batches it False self' cls)"

text \<open>
  What the workers of \<open>produce_followed_ids\<close> do to the pipe for a list of replies, one
  after the other: each reply goes through \<open>update_followings\<close> with \<open>all_batches\<close> left
  at its default.
\<close>

fun ingest_all ::
  "set_listing \<Rightarrow> following_reply option list \<Rightarrow> FollowNetPipe \<Rightarrow> pipe_class
     \<Rightarrow> FollowNetPipe \<times> pipe_class" where
  "ingest_all it [] self cls = (self, cls)"
| "ingest_all it (reply # replies) self cls =
     (case update_followings it reply False self cls of
        (bs, self', cls') \<Rightarrow> ingest_all it replies self' cls')"

subsection \<open>Auxiliary definitions\<close>

text \<open>
  \<open>update_followings\<close> in two halves. \<open>recorded\<close> is the pipe after the block under
  \<open>if following_reply:\<close>, with the pop of \<open>followings_counter\<close> written out; \<open>stepped\<close> is
  the pipe after the whole call, when \<open>new_candidate_batches\<close> has read
  \<open>mutual_followings\<close> once more.
\<close>

definition recorded :: "following_reply option \<Rightarrow> FollowNetPipe \<Rightarrow> FollowNetPipe" where
  "recorded reply self = (case reply of
           None \<Rightarrow> self
         | Some r \<Rightarrow>
             if r_total r \<le> max_followings self then
               self\<lparr>folnet := (folnet self)
                       \<lparr>counter_store :=
                          counter_update (map to_id (r_data r))
                            (fmdrop (streamer_id (folnet self))
                               (counter_store (folnet self)))\<rparr>,
                    num_collected := num_collected self + 1\<rparr>
             else self\<lparr>num_skipped := num_skipped self + 1\<rparr>)"

definition stepped :: "following_reply option \<Rightarrow> FollowNetPipe \<Rightarrow> FollowNetPipe" where
  "stepped reply self =
     (recorded reply self)\<lparr>folnet := snd (mutual_followings (folnet (recorded reply self)))\<rparr>"

text \<open>The list comprehension of \<open>batchify\<close>, for chunks of length \<open>k\<close>.\<close>

definition chunked :: "nat \<Rightarrow> string list \<Rightarrow> string list list" where
  "chunked k xs = map (\<lambda>i. take k (drop i xs)) (range_step (length xs) k)"

text \<open>
  The ids that a reply adds to the counter: the \<open>to_id\<close>s of its data when the reply is
  there and its total is at most \<open>mx\<close>, none otherwise.
\<close>

definition accepted_ids :: "int \<Rightarrow> following_reply option \<Rightarrow> string list" where
  "accepted_ids mx reply =
     (case reply of None \<Rightarrow> []
      | Some r \<Rightarrow> if r_total r \<le> mx then map to_id (r_data r) else [])"

subsection \<open>Example states\<close>

text \<open>
  A reply with the given total and followed ids, and a pipe as \<open>main\<close> makes it: a network
  for the streamer \<open>S\<close> with \<open>min_mutual = 3\<close>, \<open>max_followings = 150\<close>.
\<close>

definition ex_reply :: "int \<Rightarrow> string list \<Rightarrow> following_reply" where
  "ex_reply n uids = \<lparr>r_total = n, r_data = map (\<lambda>uid. \<lparr>to_id = uid\<rparr>) uids\<rparr>"

definition ex_pipe :: FollowNetPipe where
  "ex_pipe = fst (FollowNetPipe_init (FollowerNetwork_init ''S'' 3) 150 pipe_class_init)"

text \<open>
  The network of streamer \<open>S\<close> right after \<open>followings_counter.update(['S'])\<close>, which is
  what line 90 of the module does with a reply that lists the streamer.
\<close>

definition ex_net :: FollowerNetwork where
  "ex_net =
     (FollowerNetwork_init ''S'' 3)
       \<lparr>counter_store :=
          counter_update [''S''] (fst (followings_counter (FollowerNetwork_init ''S'' 3)))\<rparr>"

text \<open>
  Two pipes in one interpreter. The first is for streamer \<open>S\<close>, ingests one reply that
  lists \<open>X\<close> and flushes. The second is made after that, for streamer \<open>T\<close>, ingests one
  reply that lists \<open>Y\<close> and flushes. Both networks have \<open>min_mutual = 1\<close>.
\<close>

definition ex_a0 :: "FollowNetPipe \<times> pipe_class" where
  "ex_a0 = FollowNetPipe_init (FollowerNetwork_init ''S'' 1) 150 pipe_class_init"

definition ex_a1 :: "FollowNetPipe \<times> pipe_class" where
  "ex_a1 = ingest_all sorted_list_of_fset [Some (ex_reply 1 [''X''])] (fst ex_a0) (snd ex_a0)"

definition ex_a2 :: "batches \<times> FollowNetPipe \<times> pipe_class" where
  "ex_a2 = new_candidate_batches sorted_list_of_fset True (fst ex_a1) (snd ex_a1)"

definition ex_b0 :: "FollowNetPipe \<times> pipe_class" where
  "ex_b0 = FollowNetPipe_init (FollowerNetwork_init ''T'' 1) 150 (snd (snd ex_a2))"

definition ex_b1 :: "FollowNetPipe \<times> pipe_class" where
  "ex_b1 = ingest_all sorted_list_of_fset [Some (ex_reply 1 [''Y''])] (fst ex_b0) (snd ex_b0)"

definition ex_b2 :: "batches \<times> FollowNetPipe \<times> pipe_class" where
  "ex_b2 = new_candidate_batches sorted_list_of_fset True (fst ex_b1) (snd ex_b1)"

text \<open>
  A pipe whose counter has seen the \<open>n\<close> ids \<open>u\<close>, \<open>uu\<close>, \<open>uuu\<close>, ... three times each, so
  that with \<open>min_mutual = 3\<close> all \<open>n\<close> are mutual followings.
\<close>

definition ex_uids :: "nat \<Rightarrow> string list" where
  "ex_uids n = map (\<lambda>i. replicate (Suc i) CHR ''u'') [0..<n]"

definition ex_full :: "nat \<Rightarrow> FollowNetPipe" where
  "ex_full n =
     \<lparr>folnet = \<lparr>streamer_id = ''S'', min_mutual = 3,
                counter_store = counter_update (ex_uids n) (counter_update (ex_uids n)
                                  (counter_update (ex_uids n) fmempty))\<rparr>,
      max_followings = 150, num_collected = 3, num_skipped = 0\<rparr>"

text \<open>
  Calls on the example states, with sets listed in lexicographic order: one reply and
  a list of replies through \<open>ex_pipe\<close>, a streaming release and a flush of \<open>ex_full\<close>.
\<close>

definition ex_ingest :: "following_reply \<Rightarrow> batches \<times> FollowNetPipe \<times> pipe_class" where
  "ex_ingest r = update_followings sorted_list_of_fset (Some r) False ex_pipe pipe_class_init"

definition ex_run :: "following_reply option list \<Rightarrow> FollowNetPipe \<times> pipe_class" where
  "ex_run replies = ingest_all sorted_list_of_fset replies ex_pipe pipe_class_init"

definition ex_stream :: "nat \<Rightarrow> batches \<times> FollowNetPipe \<times> pipe_class" where
  "ex_stream n = new_candidate_batches sorted_list_of_fset False (ex_full n) pipe_class_init"

definition ex_flush :: "batches \<times> FollowNetPipe \<times> pipe_class" where
  "ex_flush = new_candidate_batches sorted_list_of_fset True (ex_full 101) pipe_class_init"

section \<open>Lemmas\<close>

subsection \<open>The properties of \<open>FollowerNetwork\<close>\<close>

lemma followings_counter_fst:
  "fst (followings_counter self) = fmdrop (streamer_id self) (counter_store self)"
  by (simp add: followings_counter_def counter_pop_def Let_def)

lemma followings_counter_snd:
  "snd (followings_counter self) =
     self\<lparr>counter_store := fmdrop (streamer_id self) (counter_store self)\<rparr>"
  by (simp add: followings_counter_def counter_pop_def Let_def)

lemma mutual_followings_snd:
  "snd (mutual_followings self) =
     self\<lparr>counter_store := fmdrop (streamer_id self) (counter_store self)\<rparr>"
  by (simp add: mutual_followings_def followings_counter_def counter_pop_def Let_def)

lemma mutual_followings_fst:
  "fst (mutual_followings self) =
     fmfilter (\<lambda>uid. uid \<noteq> streamer_id self \<and>
                 (case fmlookup (counter_store self) uid of
                    None \<Rightarrow> False | Some cnt \<Rightarrow> min_mutual self \<le> cnt))
       (counter_store self)"
  by (rule fmap_ext)
     (auto simp: mutual_followings_def followings_counter_def counter_pop_def Let_def
           split: option.splits)

lemma mutual_followings_lookup:
  "fmlookup (fst (mutual_followings self)) uid =
     (if uid \<noteq> streamer_id self \<and>
         (case fmlookup (counter_store self) uid of
            None \<Rightarrow> False | Some cnt \<Rightarrow> min_mutual self \<le> cnt)
      then fmlookup (counter_store self) uid else None)"
  by (simp add: mutual_followings_fst)

subsection \<open>The counter\<close>

lemma count_of_incr: "count_of (counter_incr e c) k = count_of c k + (if k = e then 1 else 0)"
  by (simp add: counter_incr_def count_of_def)

lemma fmdom_incr: "fmdom (counter_incr e c) = finsert e (fmdom c)"
  by (simp add: counter_incr_def)

lemma count_of_update: "count_of (counter_update es c) k = count_of c k + int (count_list es k)"
  unfolding counter_update_def
  by (induction es arbitrary: c) (simp_all add: count_of_incr)

lemma fmdom_update: "fmdom (counter_update es c) = fmdom c |\<union>| fset_of_list es"
  unfolding counter_update_def
  by (induction es arbitrary: c) (auto simp: fmdom_incr)

lemma fmlookup_count_of: "fmlookup c k = (if k |\<in>| fmdom c then Some (count_of c k) else None)"
  by (auto simp: count_of_def fmlookup_dom_iff split: option.splits)

lemma counter_eqI:
  "fmdom c = fmdom d \<Longrightarrow> (\<And>k. count_of c k = count_of d k) \<Longrightarrow> c = d"
  by (rule fmap_ext) (simp add: fmlookup_count_of)

lemma count_of_drop: "count_of (fmdrop s c) k = (if k = s then 0 else count_of c k)"
  by (simp add: count_of_def)

subsection \<open>The components of a call\<close>

lemma ncb_fst:
  "fst (new_candidate_batches it r self cls) = batchify (it (new_candidates self cls)) r"
  by (simp add: new_candidate_batches_def Let_def)

lemma ncb_pipe: "fst (snd (new_candidate_batches it r self cls)) =
   self\<lparr>folnet := snd (mutual_followings (folnet self))\<rparr>"
  by (simp add: new_candidate_batches_def Let_def)

lemma ncb_cls: "snd (snd (new_candidate_batches it r self cls)) =
   cls\<lparr>batch_history := batch_history cls |\<union>|
      fset_of_list (flat_candidates r (batchify (it (new_candidates self cls)) r))\<rparr>"
  by (simp add: new_candidate_batches_def Let_def)

lemma update_followings_eq:
  "update_followings it reply ab self cls =
     new_candidate_batches it ab (recorded reply self) cls"
  by (cases ab)
     (auto simp: update_followings_def recorded_def followings_counter_def counter_pop_def
           Let_def split: option.splits)

subsection \<open>Chunks\<close>

lemma concat_take_drop: "concat (map (\<lambda>j. take k (drop (j * k) xs)) [0..<m]) = take (m * k) xs"
proof (induction m)
  case 0
  then show ?case by simp
next
  case (Suc m)
  have "concat (map (\<lambda>j. take k (drop (j * k) xs)) [0..<Suc m]) =
          take (m * k) xs @ take k (drop (m * k) xs)"
    using Suc by simp
  also have "\<dots> = take (m * k + k) xs"
    by (simp only: take_add)
  finally show ?case by (simp add: add.commute)
qed

lemma chunked_alt: "chunked k xs = map (\<lambda>j. take k (drop (j * k) xs)) [0..<(length xs + k - 1) div k]"
  by (simp add: chunked_def range_step_def comp_def)

lemma ceil_bound: "0 < k \<Longrightarrow> n \<le> ((n + k - 1) div k) * (k::nat)"
proof -
  assume k: "0 < k"
  have "n + k - 1 < ((n + k - 1) div k) * k + k"
    using k by (metis add.commute dividend_less_div_times mult.commute)
  then show ?thesis by linarith
qed

lemma concat_chunked: "0 < k \<Longrightarrow> concat (chunked k xs) = xs"
  using ceil_bound[of k "length xs"] by (simp add: chunked_alt concat_take_drop)

lemma chunk_index_bound:
  assumes "0 < k" "j < (n + k - 1) div k"
  shows "j * k < (n::nat)"
proof -
  have "Suc j \<le> (n + k - 1) div k" using assms by simp
  then have "Suc j * k \<le> n + k - 1"
    using assms(1) by (simp add: less_eq_div_iff_mult_less_eq)
  then show ?thesis using assms(1) by simp
qed

lemma chunked_nonempty: "0 < k \<Longrightarrow> c \<in> set (chunked k xs) \<Longrightarrow> c \<noteq> [] \<and> length c \<le> k"
  by (auto simp: chunked_alt dest: chunk_index_bound)

lemma chunked_full: "0 < k \<Longrightarrow> c \<in> set (butlast (chunked k xs)) \<Longrightarrow> length c = k"
proof -
  assume k: "0 < k" and c: "c \<in> set (butlast (chunked k xs))"
  let ?m = "(length xs + k - 1) div k"
  have "butlast (chunked k xs) = map (\<lambda>j. take k (drop (j * k) xs)) [0..<?m - 1]"
    by (simp add: chunked_alt butlast_conv_take take_map)
  with c obtain j where j: "j < ?m - 1" and cj: "c = take k (drop (j * k) xs)" by auto
  from j have "Suc j < ?m" by simp
  then have "Suc j * k < length xs" using k by (rule_tac chunk_index_bound) auto
  then show ?thesis using cj by simp
qed

lemma batchify_True: "batchify xs True = Chunks (chunked BATCH_SZ xs)"
  by (simp add: batchify_def chunked_def)

lemma batchify_False: "batchify xs False = Flat (if BATCH_SZ < length xs then take BATCH_SZ xs else [])"
  by (simp add: batchify_def)

lemma flat_batchify_True: "flat_candidates True (batchify xs True) = xs"
  using concat_chunked[of BATCH_SZ xs]
  by (auto simp: batchify_True flat_candidates_def BATCH_SZ_def)

subsection \<open>Listings of sets\<close>

lemma fcard_fset_of_list: "distinct xs \<Longrightarrow> fcard (fset_of_list xs) = length xs"
  by (simp add: fcard.rep_eq fset_of_list.rep_eq distinct_card)

lemma set_iter_sorted: "set_iter sorted_list_of_fset"
  unfolding set_iter_def
  by (intro allI conjI) (simp, simp add: sorted_list_of_fset.rep_eq)

lemma mutual_followings_idem:
  "fst (mutual_followings (snd (mutual_followings fn))) = fst (mutual_followings fn)"
  by (rule fmap_ext) (auto simp: mutual_followings_lookup mutual_followings_snd split: option.splits)

lemma set_iter_fset: "set_iter it \<Longrightarrow> fset_of_list (it S) = S"
  by (simp add: set_iter_def)

lemma set_iter_distinct: "set_iter it \<Longrightarrow> distinct (it S)"
  by (simp add: set_iter_def)

lemma set_iter_length: "set_iter it \<Longrightarrow> length (it S) = fcard S"
  using fcard_fset_of_list[of "it S"] by (simp add: set_iter_def)

lemma set_iter_empty: "set_iter it \<Longrightarrow> it {||} = []"
  using set_iter_length[of it "{||}"] by (simp add: fcard_fempty)

lemma fset_of_list_take_subset: "fset_of_list (take n xs) |\<subseteq>| fset_of_list xs"
  by (meson fset_of_list_subset set_take_subset)

subsection \<open>Releasing batches\<close>

lemma new_candidates_after_read:
  "new_candidates (self\<lparr>folnet := snd (mutual_followings (folnet self))\<rparr>) cls = new_candidates self cls"
  by (simp add: new_candidates_def mutual_followings_idem)

lemma flush_history:
  assumes "set_iter it"
  shows "batch_history (snd (snd (new_candidate_batches it True self cls))) =
           batch_history cls |\<union>| fmdom (fst (mutual_followings (folnet self)))"
  using set_iter_fset[OF assms, of "new_candidates self cls"]
  by (auto simp: ncb_cls flat_batchify_True new_candidates_def)

lemma flush_chunks:
  assumes "set_iter it"
  shows "fst (new_candidate_batches it True self cls) =
           Chunks (chunked BATCH_SZ (it (new_candidates self cls)))"
  by (simp add: ncb_fst batchify_True)

subsection \<open>Ingesting replies\<close>

lemma uf_pipe: "fst (snd (update_followings it reply ab self cls)) = stepped reply self"
  by (simp add: update_followings_eq ncb_pipe stepped_def)

lemma uf_cls: "snd (snd (update_followings it reply ab self cls)) =
   cls\<lparr>batch_history := batch_history cls |\<union>|
      fset_of_list (flat_candidates ab (batchify (it (new_candidates (recorded reply self) cls)) ab))\<rparr>"
  by (simp add: update_followings_eq ncb_cls)

lemma recorded_consts [simp]:
  "streamer_id (folnet (recorded reply self)) = streamer_id (folnet self)"
  "min_mutual (folnet (recorded reply self)) = min_mutual (folnet self)"
  "max_followings (recorded reply self) = max_followings self"
  by (auto simp: recorded_def split: option.splits)

lemma stepped_consts [simp]:
  "streamer_id (folnet (stepped reply self)) = streamer_id (folnet self)"
  "min_mutual (folnet (stepped reply self)) = min_mutual (folnet self)"
  "max_followings (stepped reply self) = max_followings self"
  by (simp_all add: stepped_def mutual_followings_snd)

lemma ingest_all_Cons:
  "ingest_all it (reply # replies) self cls =
     ingest_all it replies (stepped reply self)
       (snd (snd (update_followings it reply False self cls)))"
  using uf_pipe[of it reply False self cls]
  by (cases "update_followings it reply False self cls") simp

lemma ingest_all_consts:
  "streamer_id (folnet (fst (ingest_all it replies self cls))) = streamer_id (folnet self)
   \<and> min_mutual (folnet (fst (ingest_all it replies self cls))) = min_mutual (folnet self)
   \<and> max_followings (fst (ingest_all it replies self cls)) = max_followings self"
proof (induction replies arbitrary: self cls)
  case Nil
  then show ?case by simp
next
  case (Cons reply replies)
  show ?case unfolding ingest_all_Cons using Cons.IH by simp
qed

lemma fmdom_view: "fmdom (fst (followings_counter fn)) = fmdom (counter_store fn) |-| {|streamer_id fn|}"
  by (simp add: followings_counter_fst)

lemma fmdom_mutual: "fmdom (fst (mutual_followings fn)) |\<subseteq>| fmdom (fst (followings_counter fn))"
  by (auto simp: mutual_followings_fst followings_counter_fst)

lemma view_stepped:
  "fst (followings_counter (folnet (stepped reply self))) =
     fmdrop (streamer_id (folnet self)) (counter_store (folnet (recorded reply self)))"
  by (simp add: stepped_def followings_counter_fst mutual_followings_snd)

lemma store_stepped:
  "counter_store (folnet (stepped reply self)) =
     fmdrop (streamer_id (folnet self)) (counter_store (folnet (recorded reply self)))"
  by (simp add: stepped_def mutual_followings_snd)

lemma drop_update_drop: "fmdrop s (counter_update es (fmdrop s c)) = fmdrop s (counter_update es c)"
  by (rule counter_eqI) (auto simp: fmdom_update count_of_drop count_of_update)

subsection \<open>The order of the replies\<close>

lemma store_recorded:
  "fmdrop (streamer_id (folnet self)) (counter_store (folnet (recorded reply self))) =
   fmdrop (streamer_id (folnet self))
     (counter_update (accepted_ids (max_followings self) reply) (counter_store (folnet self)))"
  by (auto simp: recorded_def accepted_ids_def counter_update_def
           drop_update_drop[unfolded counter_update_def]
           split: option.splits)

lemma counter_update_append:
  "counter_update (xs @ ys) c = counter_update ys (counter_update xs c)"
  by (simp add: counter_update_def)

lemma view_ingest_all:
  "fst (followings_counter (folnet (fst (ingest_all it replies self cls)))) =
     fmdrop (streamer_id (folnet self))
       (counter_update (concat (map (accepted_ids (max_followings self)) replies))
          (counter_store (folnet self)))"
proof (induction replies arbitrary: self cls)
  case Nil
  then show ?case by (simp add: followings_counter_fst counter_update_def)
next
  case (Cons reply replies)
  let ?s = "streamer_id (folnet self)"
  let ?A = "accepted_ids (max_followings self) reply"
  let ?B = "concat (map (accepted_ids (max_followings self)) replies)"
  have "fst (followings_counter (folnet (fst (ingest_all it (reply # replies) self cls)))) =
        fmdrop ?s (counter_update ?B (counter_store (folnet (stepped reply self))))"
    unfolding ingest_all_Cons using Cons.IH by simp
  also have "\<dots> = fmdrop ?s (counter_update ?B (fmdrop ?s (counter_update ?A (counter_store (folnet self)))))"
    by (simp add: store_stepped store_recorded)
  also have "\<dots> = fmdrop ?s (counter_update ?B (counter_update ?A (counter_store (folnet self))))"
    by (rule drop_update_drop)
  finally show ?case by (simp add: counter_update_append)
qed

lemma counter_update_mset:
  assumes "mset xs = mset ys"
  shows "counter_update xs c = counter_update ys c"
proof (rule counter_eqI)
  have "set xs = set ys" using assms by (rule mset_eq_setD)
  then show "fmdom (counter_update xs c) = fmdom (counter_update ys c)"
    by (simp add: fmdom_update fset_of_list.abs_eq)
next
  fix k
  have "count (mset xs) k = count (mset ys) k" using assms by simp
  then show "count_of (counter_update xs c) k = count_of (counter_update ys c) k"
    by (simp add: count_of_update count_mset)
qed

lemma mset_concat_map:
  "mset (concat (map f xs)) = (\<Sum>x\<in>#mset xs. mset (f x))"
  by (induction xs) simp_all

lemma mset_accepted:
  "mset rs1 = mset rs2 \<Longrightarrow>
   mset (concat (map (accepted_ids mx) rs1)) = mset (concat (map (accepted_ids mx) rs2))"
  by (simp add: mset_concat_map)

lemma mutual_lookup_view:
  "fmlookup (fst (mutual_followings fn)) uid =
     (case fmlookup (fst (followings_counter fn)) uid of
        None \<Rightarrow> None
      | Some cnt \<Rightarrow> if min_mutual fn \<le> cnt then Some cnt else None)"
  by (auto simp: mutual_followings_def followings_counter_def Let_def split: option.splits)

lemma mutual_from_view:
  "fst (followings_counter a) = fst (followings_counter b) \<Longrightarrow> min_mutual a = min_mutual b
   \<Longrightarrow> fst (mutual_followings a) = fst (mutual_followings b)"
  by (rule fmap_ext) (simp add: mutual_lookup_view split: option.splits)

lemma recorded_mono:
  "fmdom (fst (mutual_followings (folnet self))) |\<subseteq>|
   fmdom (fst (mutual_followings (folnet (recorded reply self))))"
proof
  fix k assume "k |\<in>| fmdom (fst (mutual_followings (folnet self)))"
  then obtain n where k: "k \<noteq> streamer_id (folnet self)"
      and n: "fmlookup (counter_store (folnet self)) k = Some n"
      and m: "min_mutual (folnet self) \<le> n"
    by (auto simp: fmlookup_dom_iff mutual_followings_lookup split: if_splits option.splits)
  let ?c = "counter_store (folnet (recorded reply self))"
  have "\<exists>n'. fmlookup ?c k = Some n' \<and> n \<le> n'"
  proof (cases reply)
    case None
    then show ?thesis using n by (simp add: recorded_def)
  next
    case (Some r)
    show ?thesis
    proof (cases "r_total r \<le> max_followings self")
      case True
      let ?ids = "map to_id (r_data r)"
      let ?base = "fmdrop (streamer_id (folnet self)) (counter_store (folnet self))"
      have c: "?c = counter_update ?ids ?base" using Some True by (simp add: recorded_def)
      have d: "k |\<in>| fmdom ?c" using n k by (auto simp: c fmdom_update fmlookup_dom_iff)
      have "count_of ?c k = n + int (count_list ?ids k)"
        using n k by (simp add: c count_of_update count_of_drop) (simp add: count_of_def)
      then show ?thesis using d by (simp add: fmlookup_count_of)
    next
      case False
      then show ?thesis using Some n by (simp add: recorded_def)
    qed
  qed
  then show "k |\<in>| fmdom (fst (mutual_followings (folnet (recorded reply self))))"
    using k m by (auto simp: fmlookup_dom_iff mutual_followings_lookup)
qed

lemma mutual_stepped:
  "fst (mutual_followings (folnet (stepped reply self))) =
   fst (mutual_followings (folnet (recorded reply self)))"
  by (simp add: stepped_def mutual_followings_idem)

lemma ingest_all_mono:
  "fmdom (fst (mutual_followings (folnet self))) |\<subseteq>|
   fmdom (fst (mutual_followings (folnet (fst (ingest_all it replies self cls)))))"
proof (induction replies arbitrary: self cls)
  case Nil
  then show ?case by simp
next
  case (Cons reply replies)
  have "fmdom (fst (mutual_followings (folnet self))) |\<subseteq>|
        fmdom (fst (mutual_followings (folnet (stepped reply self))))"
    using recorded_mono by (simp add: mutual_stepped)
  also have "\<dots> |\<subseteq>| fmdom (fst (mutual_followings (folnet (fst (ingest_all it (reply # replies) self cls)))))"
    unfolding ingest_all_Cons by (rule Cons.IH)
  finally show ?case .
qed

lemma flat_streaming_subset:
  "fset_of_list (flat_candidates False (batchify xs False)) |\<subseteq>| fset_of_list xs"
  by (simp add: batchify_False flat_candidates_def fset_of_list_take_subset)

lemma uf_history:
  assumes "set_iter it"
  shows "batch_history cls |\<subseteq>| batch_history (snd (snd (update_followings it reply False self cls)))
       \<and> batch_history (snd (snd (update_followings it reply False self cls))) |\<subseteq>|
           batch_history cls |\<union>| fmdom (fst (mutual_followings (folnet (stepped reply self))))"
proof -
  let ?U = "new_candidates (recorded reply self) cls"
  have "fset_of_list (flat_candidates False (batchify (it ?U) False)) |\<subseteq>| ?U"
    using flat_streaming_subset[of "it ?U"] set_iter_fset[OF assms, of ?U] by simp
  also have "?U |\<subseteq>| fmdom (fst (mutual_followings (folnet (recorded reply self))))"
    by (auto simp: new_candidates_def)
  finally show ?thesis by (auto simp: uf_cls mutual_stepped)
qed

lemma ingest_all_history:
  assumes "set_iter it"
  shows "batch_history cls |\<subseteq>| batch_history (snd (ingest_all it replies self cls))
       \<and> batch_history (snd (ingest_all it replies self cls)) |\<subseteq>|
           batch_history cls |\<union>|
             fmdom (fst (mutual_followings (folnet (fst (ingest_all it replies self cls)))))"
proof (induction replies arbitrary: self cls)
  case Nil
  then show ?case by simp
next
  case (Cons reply replies)
  let ?cls1 = "snd (snd (update_followings it reply False self cls))"
  let ?self1 = "stepped reply self"
  note one = uf_history[OF assms, of cls reply self]
  note rest = Cons.IH[of ?cls1 ?self1]
  note mono = ingest_all_mono[of ?self1 it replies ?cls1]
  show ?case unfolding ingest_all_Cons using one rest mono by blast
qed

subsection \<open>The example states\<close>

lemma ex_reply_simps [simp]:
  "r_total (ex_reply n uids) = n" "map to_id (r_data (ex_reply n uids)) = uids"
  by (simp_all add: ex_reply_def comp_def)

lemma ex_pipe_simps [simp]:
  "folnet ex_pipe = FollowerNetwork_init ''S'' 3" "max_followings ex_pipe = 150"
  "num_collected ex_pipe = 0" "num_skipped ex_pipe = 0"
  by (simp_all add: ex_pipe_def FollowNetPipe_init_def)

lemma init_simps [simp]:
  "streamer_id (FollowerNetwork_init s m) = s" "min_mutual (FollowerNetwork_init s m) = m"
  "counter_store (FollowerNetwork_init s m) = fmempty"
  by (simp_all add: FollowerNetwork_init_def)

lemma streaming_small:
  assumes "set_iter it" and "fcard (new_candidates self cls) \<le> 100"
  shows "snd (snd (new_candidate_batches it False self cls)) = cls"
  using assms(2) set_iter_length[OF assms(1), of "new_candidates self cls"]
  by (simp add: ncb_cls batchify_False flat_candidates_def BATCH_SZ_def)

lemma ingest_all_single:
  "ingest_all it [reply] self cls =
     (stepped reply self, snd (snd (new_candidate_batches it False (recorded reply self) cls)))"
  unfolding ingest_all_Cons by (simp add: update_followings_eq)

lemma mutual_keys_single:
  "m \<le> 1 \<Longrightarrow> s \<noteq> u \<Longrightarrow>
   fmdom (fst (mutual_followings (folnet (recorded (Some (ex_reply 1 [u]))
      \<lparr>folnet = FollowerNetwork_init s m, max_followings = 150,
         num_collected = a, num_skipped = b\<rparr>)))) = {|u|}"
  by (auto simp: recorded_def mutual_followings_fst counter_update_def counter_incr_def count_of_def)

lemma ex_a1_keys: "fmdom (fst (mutual_followings (folnet (fst ex_a1)))) = {|''X''|}"
  by (simp add: ex_a1_def ex_a0_def FollowNetPipe_init_def ingest_all_single mutual_stepped mutual_keys_single
           del: ingest_all.simps)

lemma ex_a1_hist: "batch_history (snd ex_a1) = {||}"
  unfolding ex_a1_def ex_a0_def FollowNetPipe_init_def ingest_all_single
  apply (simp add: pipe_class_init_def)
  apply (subst streaming_small[OF set_iter_sorted])
   apply (simp_all add: new_candidates_def mutual_keys_single fcard_finsert_if fcard_fempty)
  done

lemma ex_a2_hist: "batch_history (snd (snd ex_a2)) = {|''X''|}"
  by (simp add: ex_a2_def flush_history[OF set_iter_sorted] ex_a1_keys ex_a1_hist)

lemma ex_b1_keys: "fmdom (fst (mutual_followings (folnet (fst ex_b1)))) = {|''Y''|}"
  by (simp add: ex_b1_def ex_b0_def FollowNetPipe_init_def ingest_all_single mutual_stepped mutual_keys_single
           del: ingest_all.simps)

lemma ex_b1_hist: "batch_history (snd ex_b1) = {|''X''|}"
  unfolding ex_b1_def ex_b0_def FollowNetPipe_init_def ingest_all_single
  apply (simp add: ex_a2_hist)
  apply (subst streaming_small[OF set_iter_sorted])
   apply (simp_all add: new_candidates_def mutual_keys_single fcard_finsert_if fcard_fempty ex_a2_hist)
  done

lemma ex_uids_distinct: "distinct (ex_uids n)"
proof -
  have "inj_on (\<lambda>i. replicate (Suc i) CHR ''u'') A" for A
    by (rule inj_onI) (metis length_replicate nat.inject)
  then show ?thesis by (simp add: ex_uids_def distinct_map)
qed

lemma ex_uids_length: "length (ex_uids n) = n"
  by (simp add: ex_uids_def)

lemma ex_uids_not_S: "''S'' \<notin> set (ex_uids n)"
  by (auto simp: ex_uids_def)

lemma count_list_distinct:
  "distinct xs \<Longrightarrow> count_list xs k = (if k \<in> set xs then 1 else 0)"
  by (induction xs) auto

lemma mutual_keys:
  "fmdom (fst (mutual_followings fn)) =
     ffilter (\<lambda>k. min_mutual fn \<le> count_of (fst (followings_counter fn)) k)
       (fmdom (fst (followings_counter fn)))"
  by (auto simp: mutual_lookup_view fmlookup_dom_iff count_of_def split: option.splits if_splits)

lemma count_of_empty: "count_of fmempty k = 0"
  by (simp add: count_of_def)

lemma ex_full_keys:
  "fmdom (fst (mutual_followings (folnet (ex_full n)))) = fset_of_list (ex_uids n)"
  using ex_uids_not_S[of n]
  by (auto simp: mutual_keys followings_counter_fst ex_full_def fmdom_update count_of_drop
        count_of_update count_list_distinct[OF ex_uids_distinct] fset_of_list_elem count_of_empty)

lemma ex_full_new: "new_candidates (ex_full n) pipe_class_init = fset_of_list (ex_uids n)"
  by (simp add: new_candidates_def ex_full_keys pipe_class_init_def)

lemma ex_full_fcard: "fcard (new_candidates (ex_full n) pipe_class_init) = n"
  by (simp add: ex_full_new fcard_fset_of_list[OF ex_uids_distinct] ex_uids_length)



section \<open>The claims\<close>

text \<open>
  Claim C1. Start from any pipe and class state and ingest any list of replies, whether
  they list the streamer or not. The streamer's id stays what it was, it is not a key
  of the counter read through \<open>followings_counter\<close>, and it is not a key of
  \<open>mutual_followings\<close>.
\<close>

theorem subject_never_counted:
  "streamer_id (folnet (fst (ingest_all it replies self cls))) = streamer_id (folnet self)
   \<and> streamer_id (folnet self) |\<notin>|
        fmdom (fst (followings_counter (folnet (fst (ingest_all it replies self cls)))))
   \<and> streamer_id (folnet self) |\<notin>|
        fmdom (fst (mutual_followings (folnet (fst (ingest_all it replies self cls)))))"
proof -
  let ?fn = "folnet (fst (ingest_all it replies self cls))"
  have s: "streamer_id ?fn = streamer_id (folnet self)" using ingest_all_consts by simp
  have v: "streamer_id ?fn |\<notin>| fmdom (fst (followings_counter ?fn))" by (simp add: fmdom_view)
  have m: "streamer_id ?fn |\<notin>| fmdom (fst (mutual_followings ?fn))"
    using v fmdom_mutual[of ?fn] by blast
  show ?thesis using s v m by simp
qed

text \<open>
  Claim C2. \<open>BATCH_SZ\<close> is \<open>100\<close>. Take any pipe and class state and call
  \<open>new_candidate_batches\<close> with \<open>remainder\<close> false. When more than \<open>100\<close> mutual followings
  are not in \<open>batch_history\<close> yet, the call returns one flat list of exactly \<open>100\<close> ids, all
  different, all from those candidates and none of them in \<open>batch_history\<close> before, and
  \<open>batch_history\<close> afterwards is what it was together with exactly these ids. When there
  are \<open>100\<close> such candidates or fewer, the call returns the empty list and
  \<open>batch_history\<close> is unchanged.
\<close>

theorem streaming_release_threshold:
  assumes "set_iter it"
    and "new_candidate_batches it False self cls = (bs, self', cls')"
  shows "(100 < fcard (new_candidates self cls) \<longrightarrow>
           (\<exists>uids. bs = Flat uids \<and> length uids = 100 \<and> distinct uids
              \<and> fset_of_list uids |\<subseteq>| new_candidates self cls
              \<and> fset_of_list uids |\<inter>| batch_history cls = {||}
              \<and> batch_history cls' = batch_history cls |\<union>| fset_of_list uids))
       \<and> (fcard (new_candidates self cls) \<le> 100 \<longrightarrow>
             bs = Flat [] \<and> batch_history cls' = batch_history cls)"
proof (intro conjI impI)
  let ?U = "new_candidates self cls"
  have bs: "bs = batchify (it ?U) False"
    using assms(2) ncb_fst[of it False self cls] by simp
  have cls': "cls' = cls\<lparr>batch_history := batch_history cls |\<union>|
      fset_of_list (flat_candidates False (batchify (it ?U) False))\<rparr>"
    using assms(2) ncb_cls[of it False self cls] by simp
  {
    assume big: "100 < fcard ?U"
    let ?uids = "take 100 (it ?U)"
    have len: "length (it ?U) = fcard ?U" using assms(1) by (rule set_iter_length)
    have b: "bs = Flat ?uids" using bs big len by (simp add: batchify_False BATCH_SZ_def)
    have sub: "fset_of_list ?uids |\<subseteq>| ?U"
      using fset_of_list_take_subset[of 100 "it ?U"] set_iter_fset[OF assms(1), of ?U] by simp
    have disj: "fset_of_list ?uids |\<inter>| batch_history cls = {||}"
      using sub by (auto simp: new_candidates_def)
    have "length ?uids = 100" using big len by simp
    moreover have "distinct ?uids" using set_iter_distinct[OF assms(1)] by simp
    moreover have "batch_history cls' = batch_history cls |\<union>| fset_of_list ?uids"
      using cls' big len by (simp add: batchify_False BATCH_SZ_def flat_candidates_def)
    ultimately show "\<exists>uids. bs = Flat uids \<and> length uids = 100 \<and> distinct uids
              \<and> fset_of_list uids |\<subseteq>| new_candidates self cls
              \<and> fset_of_list uids |\<inter>| batch_history cls = {||}
              \<and> batch_history cls' = batch_history cls |\<union>| fset_of_list uids"
      using b sub disj by blast
  }
  {
    assume small: "fcard ?U \<le> 100"
    have len: "length (it ?U) = fcard ?U" using assms(1) by (rule set_iter_length)
    show "bs = Flat []" using bs small len by (simp add: batchify_False BATCH_SZ_def)
    show "batch_history cls' = batch_history cls"
      using cls' small len by (simp add: batchify_False BATCH_SZ_def flat_candidates_def)
  }
qed

text \<open>
  Both cases of C2 occur: with \<open>101\<close> candidates the call releases \<open>100\<close> ids, with \<open>100\<close>
  candidates it releases none.
\<close>

theorem streaming_release_threshold_witness:
  "set_iter sorted_list_of_fset
   \<and> fcard (new_candidates (ex_full 101) pipe_class_init) = 101
   \<and> (\<exists>uids. fst (ex_stream 101) = Flat uids \<and> length uids = 100 \<and> distinct uids
         \<and> batch_history (snd (snd (ex_stream 101))) = fset_of_list uids)
   \<and> fcard (new_candidates (ex_full 100) pipe_class_init) = 100
   \<and> fst (ex_stream 100) = Flat []
   \<and> batch_history (snd (snd (ex_stream 100))) = {||}"
proof -
  have e: "new_candidate_batches sorted_list_of_fset False (ex_full n) pipe_class_init =
             (fst (ex_stream n), fst (snd (ex_stream n)), snd (snd (ex_stream n)))" for n
    by (simp add: ex_stream_def)
  show ?thesis
    using streaming_release_threshold[OF set_iter_sorted e[of 101]]
          streaming_release_threshold[OF set_iter_sorted e[of 100]]
    by (simp add: ex_full_fcard set_iter_sorted) (auto simp: pipe_class_init_def)
qed

text \<open>
  The flush in any state. A call of \<open>new_candidate_batches\<close> with \<open>remainder\<close> set returns
  a list of chunks; afterwards \<open>batch_history\<close> is what it was before together with every
  key of \<open>mutual_followings\<close>, and it is exactly that key set when everything released
  before the call is a mutual following of this pipe's network. The chunks never hold
  an id twice, hold together exactly the ids that the call added to \<open>batch_history\<close>,
  are not empty and have at most \<open>100\<close> ids each, and every chunk but the last has
  exactly \<open>100\<close>.
\<close>

theorem flush_release_complete:
  assumes "set_iter it"
    and "new_candidate_batches it True self cls = (bs, self', cls')"
  shows "\<exists>chunks. bs = Chunks chunks
           \<and> batch_history cls' = batch_history cls |\<union>| fmdom (fst (mutual_followings (folnet self)))
           \<and> (batch_history cls |\<subseteq>| fmdom (fst (mutual_followings (folnet self))) \<longrightarrow>
                batch_history cls' = fmdom (fst (mutual_followings (folnet self))))
           \<and> distinct (concat chunks)
           \<and> fset_of_list (concat chunks) = batch_history cls' |-| batch_history cls
           \<and> (\<forall>c \<in> set chunks. c \<noteq> [] \<and> length c \<le> 100)
           \<and> (\<forall>c \<in> set (butlast chunks). length c = 100)"
proof -
  let ?U = "new_candidates self cls"
  let ?cs = "chunked BATCH_SZ (it ?U)"
  have bs: "bs = Chunks ?cs"
    using assms(2) flush_chunks[OF assms(1), of self cls] by simp
  have h: "batch_history cls' = batch_history cls |\<union>| fmdom (fst (mutual_followings (folnet self)))"
    using assms(2) flush_history[OF assms(1), of self cls] by simp
  have cc: "concat ?cs = it ?U" by (simp add: concat_chunked BATCH_SZ_def)
  have d: "distinct (concat ?cs)" using cc set_iter_distinct[OF assms(1)] by simp
  have f: "fset_of_list (concat ?cs) = batch_history cls' |-| batch_history cls"
    using cc set_iter_fset[OF assms(1), of ?U] h by (auto simp: new_candidates_def)
  have l: "\<forall>c \<in> set ?cs. c \<noteq> [] \<and> length c \<le> 100"
    using chunked_nonempty[of BATCH_SZ _ "it ?U"] by (simp add: BATCH_SZ_def)
  have b: "\<forall>c \<in> set (butlast ?cs). length c = 100"
    using chunked_full[of BATCH_SZ _ "it ?U"] by (simp add: BATCH_SZ_def)
  have e: "batch_history cls |\<subseteq>| fmdom (fst (mutual_followings (folnet self))) \<longrightarrow>
                batch_history cls' = fmdom (fst (mutual_followings (folnet self)))"
    using h by auto
  show ?thesis using bs h d f l b e by blast
qed

text \<open>
  The flush of the pipe with \<open>101\<close> candidates and nothing released before: two chunks,
  of \<open>100\<close> ids and of one, and \<open>batch_history\<close> is the key set afterwards.
\<close>

theorem flush_release_complete_witness:
  "set_iter sorted_list_of_fset
   \<and> batch_history pipe_class_init |\<subseteq>| fmdom (fst (mutual_followings (folnet (ex_full 101))))
   \<and> batch_history (snd (snd ex_flush)) = fmdom (fst (mutual_followings (folnet (ex_full 101))))
   \<and> (\<exists>chunks. fst ex_flush = Chunks chunks
         \<and> length chunks = 2 \<and> length (hd chunks) = 100 \<and> length (last chunks) = 1
         \<and> distinct (concat chunks)
         \<and> fset_of_list (concat chunks) = fset_of_list (ex_uids 101))"
proof -
  let ?U = "new_candidates (ex_full 101) pipe_class_init"
  let ?keys = "fmdom (fst (mutual_followings (folnet (ex_full 101))))"
  have e: "new_candidate_batches sorted_list_of_fset True (ex_full 101) pipe_class_init =
             (fst ex_flush, fst (snd ex_flush), snd (snd ex_flush))"
    by (simp add: ex_flush_def)
  have sub: "batch_history pipe_class_init |\<subseteq>| ?keys"
    by (simp add: pipe_class_init_def)
  obtain chunks where c: "fst ex_flush = Chunks chunks"
    and h: "batch_history (snd (snd ex_flush)) = ?keys"
    and d: "distinct (concat chunks)"
    and f: "fset_of_list (concat chunks) =
              batch_history (snd (snd ex_flush)) |-| batch_history pipe_class_init"
    and l: "\<forall>c \<in> set chunks. c \<noteq> [] \<and> length c \<le> 100"
    and b: "\<forall>c \<in> set (butlast chunks). length c = 100"
    using flush_release_complete[OF set_iter_sorted e] sub by auto
  have len: "length (sorted_list_of_fset ?U) = 101"
    using set_iter_length[OF set_iter_sorted] by (simp add: ex_full_fcard)
  have ch: "chunks = chunked BATCH_SZ (sorted_list_of_fset ?U)"
    using c flush_chunks[OF set_iter_sorted, of "ex_full 101" pipe_class_init]
    by (simp add: ex_flush_def)
  have n2: "length chunks = 2" by (simp add: ch chunked_alt len BATCH_SZ_def)
  then obtain c1 c2 where cs: "chunks = [c1, c2]"
    by (metis (no_types, opaque_lifting) One_nat_def Suc_1 length_0_conv length_Suc_conv)
  have l1: "length c1 = 100" using b cs by simp
  have "length (concat chunks) = 101"
    using d f h fcard_fset_of_list[of "concat chunks"]
    by (simp add: ex_full_keys pipe_class_init_def fcard_fset_of_list[OF ex_uids_distinct]
          ex_uids_length)
  then have l2: "length c2 = 1" using cs l1 by simp
  have f': "fset_of_list (concat chunks) = fset_of_list (ex_uids 101)"
    using f h by (simp add: ex_full_keys pipe_class_init_def)
  show ?thesis using set_iter_sorted sub h c n2 cs l1 l2 d f' by simp
qed

text \<open>
  The flush of the one pipe of an interpreter. A pipe made while \<open>batch_history\<close> is
  still the empty set of the class, after any replies it has ingested, flushes and
  \<open>batch_history\<close> is exactly the key set of its \<open>mutual_followings\<close>.
\<close>

theorem flush_release_single_pipe:
  assumes "set_iter it" and "set_iter it'"
    and "FollowNetPipe_init fn mf pipe_class_init = (self0, cls0)"
    and "ingest_all it replies self0 cls0 = (self1, cls1)"
    and "new_candidate_batches it' True self1 cls1 = (bs, self2, cls2)"
  shows "batch_history cls2 = fmdom (fst (mutual_followings (folnet self1)))"
proof -
  have c0: "batch_history cls0 = {||}"
    using assms(3) by (auto simp: FollowNetPipe_init_def pipe_class_init_def)
  have "batch_history cls1 |\<subseteq>| fmdom (fst (mutual_followings (folnet self1)))"
    using ingest_all_history[OF assms(1), of cls0 replies self0] assms(4) c0 by simp
  moreover have "batch_history cls2 =
      batch_history cls1 |\<union>| fmdom (fst (mutual_followings (folnet self1)))"
    using flush_history[OF assms(2), of self1 cls1] assms(5) by simp
  ultimately show ?thesis by auto
qed

text \<open>
  Claim C3. After one call of \<open>new_candidate_batches\<close> with \<open>remainder\<close> set,
  \<open>batch_history\<close> should be the key set of \<open>mutual_followings\<close> at that moment. The code
  breaks this for the second pipe of an interpreter, because \<open>batch_history\<close> is a set of
  the class that \<open>__init__\<close> does not replace, while the counters declared beside it are
  kept for each instance. In the run of \<open>ex_a0\<close> to \<open>ex_b2\<close> the first pipe releases \<open>X\<close>;
  the second pipe has the mutual followings \<open>Y\<close> alone, and after its flush
  \<open>batch_history\<close> holds \<open>X\<close> and \<open>Y\<close>.
\<close>

theorem flush_release_second_pipe:
  "fmdom (fst (mutual_followings (folnet (fst ex_b1)))) = {|''Y''|}
   \<and> batch_history (snd (snd ex_b2)) = {|''X'', ''Y''|}
   \<and> batch_history (snd (snd ex_b2)) \<noteq> fmdom (fst (mutual_followings (folnet (fst ex_b1))))"
  by (auto simp: ex_b2_def flush_history[OF set_iter_sorted] ex_b1_keys ex_b1_hist)


text \<open>
  Claim C5, as amended. Let \<open>update_followings\<close> be called with a reply that is there.
  If its total is at most \<open>max_followings\<close>, then \<open>num_collected\<close> grows by one,
  \<open>num_skipped\<close> stays, and the counter read through \<open>followings_counter\<close> grows, for
  every id other than the streamer's, by the number of times the reply lists that id;
  its keys are the old keys and the listed ids, without the streamer's. If the total
  is above \<open>max_followings\<close>, then \<open>num_skipped\<close> grows by one, \<open>num_collected\<close> stays and the
  counter read through \<open>followings_counter\<close> is unchanged. After any list of replies,
  \<open>num_collected + num_skipped\<close> has grown by the number of replies that were there.
\<close>

theorem ingest_accounting:
  assumes "update_followings it (Some r) ab self cls = (bs, self', cls')"
  shows "(r_total r \<le> max_followings self \<longrightarrow>
            num_collected self' = num_collected self + 1
          \<and> num_skipped self' = num_skipped self
          \<and> (\<forall>uid. uid \<noteq> streamer_id (folnet self) \<longrightarrow>
                count_of (fst (followings_counter (folnet self'))) uid =
                  count_of (fst (followings_counter (folnet self))) uid
                    + int (count_list (map to_id (r_data r)) uid))
          \<and> fmdom (fst (followings_counter (folnet self'))) =
              (fmdom (fst (followings_counter (folnet self)))
                 |\<union>| fset_of_list (map to_id (r_data r))) |-| {|streamer_id (folnet self)|})
       \<and> (max_followings self < r_total r \<longrightarrow>
            num_skipped self' = num_skipped self + 1
          \<and> num_collected self' = num_collected self
          \<and> fst (followings_counter (folnet self')) = fst (followings_counter (folnet self)))
       \<and> num_collected (fst (ingest_all it replies self cls))
           + num_skipped (fst (ingest_all it replies self cls))
         = num_collected self + num_skipped self
           + int (length (filter (\<lambda>reply. reply \<noteq> None) replies))"
proof (intro conjI impI allI)
  have s: "self' = stepped (Some r) self"
    using assms uf_pipe[of it "Some r" ab self cls] by simp
  {
    assume a: "r_total r \<le> max_followings self"
    show "num_collected self' = num_collected self + 1"
      using a by (simp add: s stepped_def recorded_def)
    show "num_skipped self' = num_skipped self"
      using a by (simp add: s stepped_def recorded_def)
    show "fmdom (fst (followings_counter (folnet self'))) =
              (fmdom (fst (followings_counter (folnet self)))
                 |\<union>| fset_of_list (map to_id (r_data r))) |-| {|streamer_id (folnet self)|}"
      using a unfolding s view_stepped
      by (auto simp: recorded_def fmdom_update followings_counter_fst)
    fix uid assume u: "uid \<noteq> streamer_id (folnet self)"
    show "count_of (fst (followings_counter (folnet self'))) uid =
                  count_of (fst (followings_counter (folnet self))) uid
                    + int (count_list (map to_id (r_data r)) uid)"
      using a u unfolding s view_stepped
      by (simp add: recorded_def count_of_drop count_of_update followings_counter_fst)
  }
  {
    assume a: "max_followings self < r_total r"
    show "num_skipped self' = num_skipped self + 1"
      using a by (simp add: s stepped_def recorded_def)
    show "num_collected self' = num_collected self"
      using a by (simp add: s stepped_def recorded_def)
    show "fst (followings_counter (folnet self')) = fst (followings_counter (folnet self))"
      using a unfolding s view_stepped
      by (simp add: recorded_def followings_counter_fst)
  }
  show "num_collected (fst (ingest_all it replies self cls))
           + num_skipped (fst (ingest_all it replies self cls))
         = num_collected self + num_skipped self
           + int (length (filter (\<lambda>reply. reply \<noteq> None) replies))"
  proof (induction replies arbitrary: self cls)
    case Nil
    then show ?case by simp
  next
    case (Cons reply replies)
    have "num_collected (stepped reply self) + num_skipped (stepped reply self)
            = num_collected self + num_skipped self + (if reply \<noteq> None then 1 else 0)"
      by (auto simp: stepped_def recorded_def split: option.splits)
    then show ?case unfolding ingest_all_Cons using Cons.IH by simp
  qed
qed

text \<open>
  The numbers of the specification: with \<open>max_followings = 150\<close> a reply with total \<open>150\<close>
  is counted and one with total \<open>151\<close> is skipped.
\<close>

theorem ingest_accounting_witness:
  "num_collected (fst (snd (ex_ingest (ex_reply 150 [''X'', ''Y''])))) = 1
   \<and> count_of (fst (followings_counter (folnet (fst (snd
          (ex_ingest (ex_reply 150 [''X'', ''Y''])))))))
        ''X'' = 1
   \<and> num_skipped (fst (snd (ex_ingest (ex_reply 151 [''X'', ''Y''])))) = 1
   \<and> fst (followings_counter (folnet (fst (snd (ex_ingest (ex_reply 151 [''X'', ''Y'']))))))
        = fmempty
   \<and> num_collected (fst (ex_run [Some (ex_reply 150 [''X'']), None, Some (ex_reply 151 [''X''])]))
      + num_skipped (fst (ex_run [Some (ex_reply 150 [''X'']), None, Some (ex_reply 151 [''X''])]))
      = 2"
proof -
  have e: "update_followings sorted_list_of_fset (Some r) False ex_pipe pipe_class_init =
             (fst (ex_ingest r), fst (snd (ex_ingest r)), snd (snd (ex_ingest r)))" for r
    by (simp add: ex_ingest_def)
  show ?thesis
    using ingest_accounting[OF e[of "ex_reply 150 [''X'', ''Y'']"],
             of "[Some (ex_reply 150 [''X'']), None, Some (ex_reply 151 [''X''])]"]
          ingest_accounting[OF e[of "ex_reply 151 [''X'', ''Y'']"], of "[]"]
    by (simp add: followings_counter_fst count_of_def ex_run_def del: ingest_all.simps)
qed

text \<open>
  Claim C5 as stated (the count of every followed id in an accepted reply grows by
  one) fails for the streamer's own id: the pipe for streamer \<open>S\<close> accepts a reply that
  lists \<open>S\<close>, and the count of \<open>S\<close> is \<open>0\<close> before and \<open>0\<close> after.
\<close>

theorem ingest_subject_counterexample:
  "r_total (ex_reply 1 [''S'']) \<le> max_followings ex_pipe
   \<and> ''S'' \<in> set (map to_id (r_data (ex_reply 1 [''S''])))
   \<and> count_of (fst (followings_counter (folnet ex_pipe))) ''S'' = 0
   \<and> count_of (fst (followings_counter (folnet (fst (snd (ex_ingest (ex_reply 1 [''S''])))))))
        ''S'' = 0"
  by (simp add: ex_ingest_def uf_pipe view_stepped followings_counter_fst count_of_drop)
     (simp add: count_of_def)

text \<open>
  Claim C6, as amended. \<open>mutual_followings\<close> leaves \<open>streamer_id\<close> and \<open>min_mutual\<close> alone
  and changes the stored counter in one way only: it pops the streamer's own id from
  it. A second call right after the first returns the same mapping and changes nothing
  any more.
\<close>

theorem mutual_followings_effect:
  "snd (mutual_followings self) =
     self\<lparr>counter_store := counter_pop (streamer_id self) (counter_store self)\<rparr>
   \<and> fst (mutual_followings (snd (mutual_followings self))) = fst (mutual_followings self)
   \<and> snd (mutual_followings (snd (mutual_followings self))) = snd (mutual_followings self)"
proof (intro conjI)
  show "snd (mutual_followings self) =
          self\<lparr>counter_store := counter_pop (streamer_id self) (counter_store self)\<rparr>"
    by (simp add: mutual_followings_snd counter_pop_def)
  show "fst (mutual_followings (snd (mutual_followings self))) = fst (mutual_followings self)"
    by (rule fmap_ext) (auto simp: mutual_followings_lookup mutual_followings_snd split: option.splits)
  show "snd (mutual_followings (snd (mutual_followings self))) = snd (mutual_followings self)"
    by (simp add: mutual_followings_snd)
qed

text \<open>
  Claim C6 as stated (the stored counts are left unchanged) fails in \<open>ex_net\<close>: the stored
  counter maps \<open>S\<close> to \<open>1\<close> before \<open>mutual_followings\<close> is read and has no entry for \<open>S\<close>
  after.
\<close>

theorem mutual_followings_store_counterexample:
  "fmlookup (counter_store ex_net) ''S'' = Some 1
   \<and> fmlookup (counter_store (snd (mutual_followings ex_net))) ''S'' = None"
  by (simp add: ex_net_def FollowerNetwork_init_def mutual_followings_snd
        followings_counter_fst counter_update_def counter_incr_def count_of_def)

text \<open>
  Claim C7. When every key of \<open>mutual_followings\<close> is in \<open>batch_history\<close>, a call with
  \<open>remainder\<close> set returns no chunk and leaves the class state as it is. In particular a
  second such call right after a first one, from any state, returns no chunk and
  releases nothing.
\<close>

theorem flush_idempotent:
  assumes "set_iter it" and "set_iter it'"
  shows "(fmdom (fst (mutual_followings (folnet self))) |\<subseteq>| batch_history cls \<longrightarrow>
            fst (new_candidate_batches it True self cls) = Chunks []
          \<and> snd (snd (new_candidate_batches it True self cls)) = cls)
       \<and> (new_candidate_batches it True self cls = (bs, self', cls') \<longrightarrow>
            fst (new_candidate_batches it' True self' cls') = Chunks []
          \<and> snd (snd (new_candidate_batches it' True self' cls')) = cls')"
proof -
  have empty: "fst (new_candidate_batches j True p c) = Chunks []
          \<and> snd (snd (new_candidate_batches j True p c)) = c"
    if "set_iter j" and "fmdom (fst (mutual_followings (folnet p))) |\<subseteq>| batch_history c"
    for j p c
  proof -
    have "new_candidates p c = {||}" using that(2) by (auto simp: new_candidates_def)
    then have e: "j (new_candidates p c) = []"
      using set_iter_empty[OF that(1)] by simp
    show ?thesis
      by (simp add: ncb_fst ncb_cls e batchify_True chunked_alt flat_candidates_def BATCH_SZ_def)
  qed
  have second: "fmdom (fst (mutual_followings (folnet self'))) |\<subseteq>| batch_history cls'"
    if "new_candidate_batches it True self cls = (bs, self', cls')"
  proof -
    have s: "self' = self\<lparr>folnet := snd (mutual_followings (folnet self))\<rparr>"
      using that ncb_pipe[of it True self cls] by simp
    have c: "batch_history cls' = batch_history cls |\<union>| fmdom (fst (mutual_followings (folnet self)))"
      using that flush_history[OF assms(1), of self cls] by simp
    show ?thesis by (simp add: s c mutual_followings_idem)
  qed
  show ?thesis using empty[OF assms(1)] empty[OF assms(2)] second by blast
qed

text \<open>The first pipe of the two, flushed a second time.\<close>

theorem flush_idempotent_witness:
  "set_iter sorted_list_of_fset
   \<and> fmdom (fst (mutual_followings (folnet (fst (snd ex_a2))))) |\<subseteq>| batch_history (snd (snd ex_a2))
   \<and> batch_history (snd (snd ex_a2)) = {|''X''|}
   \<and> fst (new_candidate_batches sorted_list_of_fset True (fst (snd ex_a2)) (snd (snd ex_a2)))
       = Chunks []
   \<and> snd (snd (new_candidate_batches sorted_list_of_fset True (fst (snd ex_a2)) (snd (snd ex_a2))))
       = snd (snd ex_a2)"
proof -
  have k: "fmdom (fst (mutual_followings (folnet (fst (snd ex_a2))))) = {|''X''|}"
    by (simp add: ex_a2_def ncb_pipe mutual_followings_idem ex_a1_keys)
  have e: "new_candidate_batches sorted_list_of_fset True (fst ex_a1) (snd ex_a1)
             = (fst ex_a2, fst (snd ex_a2), snd (snd ex_a2))"
    by (simp add: ex_a2_def)
  show ?thesis
    using flush_idempotent[OF set_iter_sorted set_iter_sorted, of "fst (snd ex_a2)" "snd (snd ex_a2)"
              "fst ex_a2" "fst (snd ex_a2)" "snd (snd ex_a2)"]
          flush_idempotent[OF set_iter_sorted set_iter_sorted, of "fst ex_a1" "snd ex_a1"
              "fst ex_a2" "fst (snd ex_a2)" "snd (snd ex_a2)"] e
    by (simp add: k ex_a2_hist set_iter_sorted)
qed

text \<open>
  Claim C8. For a reply that Python treats as false, \<open>update_followings\<close> is the plain
  call of \<open>new_candidate_batches\<close> without remainder on the state it was given, and the
  counter read through \<open>followings_counter\<close>, \<open>num_collected\<close> and \<open>num_skipped\<close> are
  afterwards what they were. (The stored counter is the one before with the streamer's
  own id popped, which is what reading it through \<open>followings_counter\<close> shows in both
  states.)
\<close>

theorem empty_reply_skipped:
  "update_followings it None False self cls = new_candidate_batches it False self cls
   \<and> fst (followings_counter (folnet (fst (snd (update_followings it None False self cls)))))
       = fst (followings_counter (folnet self))
   \<and> counter_store (folnet (fst (snd (update_followings it None False self cls))))
       = counter_pop (streamer_id (folnet self)) (counter_store (folnet self))
   \<and> num_collected (fst (snd (update_followings it None False self cls))) = num_collected self
   \<and> num_skipped (fst (snd (update_followings it None False self cls))) = num_skipped self"
  by (simp add: update_followings_eq recorded_def ncb_pipe mutual_followings_snd
        followings_counter_fst counter_pop_def)

text \<open>
  Claim C9. Ingest the same replies in two orders, from the same pipe and class state,
  with any listing of the sets along the way. The counter read through
  \<open>followings_counter\<close> is the same in the end, \<open>mutual_followings\<close> is the same, and
  after the flush that ends a run \<open>batch_history\<close> is the same.
\<close>

theorem ingest_order_independent:
  assumes "set_iter it1" and "set_iter it2" and "set_iter it1'" and "set_iter it2'"
    and "mset replies1 = mset replies2"
    and "ingest_all it1 replies1 self cls = (self1, cls1)"
    and "ingest_all it2 replies2 self cls = (self2, cls2)"
  shows "fst (followings_counter (folnet self1)) = fst (followings_counter (folnet self2))
       \<and> fst (mutual_followings (folnet self1)) = fst (mutual_followings (folnet self2))
       \<and> batch_history (snd (snd (new_candidate_batches it1' True self1 cls1)))
           = batch_history (snd (snd (new_candidate_batches it2' True self2 cls2)))"
proof -
  have s1: "self1 = fst (ingest_all it1 replies1 self cls)"
    and c1: "cls1 = snd (ingest_all it1 replies1 self cls)"
    using assms(6) by simp_all
  have s2: "self2 = fst (ingest_all it2 replies2 self cls)"
    and c2: "cls2 = snd (ingest_all it2 replies2 self cls)"
    using assms(7) by simp_all
  have v: "fst (followings_counter (folnet self1)) = fst (followings_counter (folnet self2))"
    unfolding s1 s2 view_ingest_all
    using counter_update_mset[OF mset_accepted[OF assms(5)]] by simp
  have mm: "min_mutual (folnet self1) = min_mutual (folnet self2)"
    unfolding s1 s2 using ingest_all_consts by simp
  have m: "fst (mutual_followings (folnet self1)) = fst (mutual_followings (folnet self2))"
    using v mm by (rule mutual_from_view)
  have h1: "batch_history (snd (snd (new_candidate_batches it1' True self1 cls1)))
            = batch_history cls |\<union>| fmdom (fst (mutual_followings (folnet self1)))"
    using ingest_all_history[OF assms(1), of cls replies1 self]
    unfolding flush_history[OF assms(3)] s1 c1 by blast
  have h2: "batch_history (snd (snd (new_candidate_batches it2' True self2 cls2)))
            = batch_history cls |\<union>| fmdom (fst (mutual_followings (folnet self2)))"
    using ingest_all_history[OF assms(2), of cls replies2 self]
    unfolding flush_history[OF assms(4)] s2 c2 by blast
  show ?thesis using v m h1 h2 by simp
qed

text \<open>Two replies, ingested in both orders.\<close>

theorem ingest_order_independent_witness:
  "mset [Some (ex_reply 1 [''X'']), Some (ex_reply 2 [''Y'', ''X''])]
     = mset [Some (ex_reply 2 [''Y'', ''X'']), Some (ex_reply 1 [''X''])]
   \<and> fst (followings_counter (folnet (fst
         (ex_run [Some (ex_reply 1 [''X'']), Some (ex_reply 2 [''Y'', ''X''])]))))
     = fst (followings_counter (folnet (fst
         (ex_run [Some (ex_reply 2 [''Y'', ''X'']), Some (ex_reply 1 [''X''])]))))
   \<and> fst (mutual_followings (folnet (fst
         (ex_run [Some (ex_reply 1 [''X'']), Some (ex_reply 2 [''Y'', ''X''])]))))
     = fst (mutual_followings (folnet (fst
         (ex_run [Some (ex_reply 2 [''Y'', ''X'']), Some (ex_reply 1 [''X''])]))))
   \<and> batch_history (snd (snd (new_candidate_batches sorted_list_of_fset True
         (fst (ex_run [Some (ex_reply 1 [''X'']), Some (ex_reply 2 [''Y'', ''X''])]))
         (snd (ex_run [Some (ex_reply 1 [''X'']), Some (ex_reply 2 [''Y'', ''X''])])))))
     = batch_history (snd (snd (new_candidate_batches sorted_list_of_fset True
         (fst (ex_run [Some (ex_reply 2 [''Y'', ''X'']), Some (ex_reply 1 [''X''])]))
         (snd (ex_run [Some (ex_reply 2 [''Y'', ''X'']), Some (ex_reply 1 [''X''])])))))"
proof -
  have m: "mset [Some (ex_reply 1 [''X'']), Some (ex_reply 2 [''Y'', ''X''])]
     = mset [Some (ex_reply 2 [''Y'', ''X'']), Some (ex_reply 1 [''X''])]"
    by (simp add: add_mset_commute)
  have e: "ingest_all sorted_list_of_fset replies ex_pipe pipe_class_init =
             (fst (ex_run replies), snd (ex_run replies))" for replies
    by (simp add: ex_run_def)
  show ?thesis
    using ingest_order_independent
            [OF set_iter_sorted set_iter_sorted set_iter_sorted set_iter_sorted m e e] m
    by simp
qed

end
